theory Spec2Isabelle
  imports Complex_Main "HOL-Library.Log_Nat"
begin

section \<open>The base and rover log zipper of piksi\_tools\<close>

text \<open>
  A shallow embedding of \<^verbatim>\<open>piksi_tools/ardupilot/sbp_log_zipper.py\<close>: the timestamp
  extraction, the two comparators, the merge loop \<^verbatim>\<open>zip_json_generators\<close> and the
  splitting loop of \<^verbatim>\<open>main\<close>.
\<close>

subsection \<open>Messages\<close>

text \<open>
  A GPS time is the tuple \<^verbatim>\<open>(wn, tow)\<close>. Both components are unsigned fields of the
  protocol (week number and time of week), read here as natural numbers.
\<close>

type_synonym gpstime = "nat \<times> nat"

text \<open>
  A decoded message. The zipper reads \<^verbatim>\<open>msg_type\<close> and \<^verbatim>\<open>sender\<close>, and one of the
  attribute paths \<^verbatim>\<open>header.t\<close>, \<^verbatim>\<open>common.toe\<close> and \<^verbatim>\<open>t_nmct\<close>, each holding a
  \<^verbatim>\<open>wn\<close> and a \<^verbatim>\<open>tow\<close>. A path that the message object does not have is \<open>None\<close>;
  reading it raises \<^verbatim>\<open>AttributeError\<close>. The remaining content of the message is
  \<open>payload\<close>.
\<close>

record msg =
  msg_type :: nat
  sender :: nat
  header_t :: "gpstime option"
  common_toe :: "gpstime option"
  t_nmct :: "gpstime option"
  payload :: string

datatype error = AttributeError | TypeError | OverflowError

subsection \<open>Message type identifiers\<close>

text \<open>
  The identifiers are the constants of the module \<^verbatim>\<open>sbp.observation\<close>, which the script
  imports as \<^verbatim>\<open>ob\<close>. The module belongs to the sbp library, not to this repository;
  the values are the ones the library assigns to these names.
\<close>

definition SBP_MSG_OBS :: nat where "SBP_MSG_OBS = 0x004A"
definition SBP_MSG_OSR :: nat where "SBP_MSG_OSR = 0x0640"
definition SBP_MSG_EPHEMERIS_GPS :: nat where "SBP_MSG_EPHEMERIS_GPS = 0x008A"
definition SBP_MSG_EPHEMERIS_GPS_DEP_E :: nat where "SBP_MSG_EPHEMERIS_GPS_DEP_E = 0x0081"
definition SBP_MSG_EPHEMERIS_GPS_DEP_F :: nat where "SBP_MSG_EPHEMERIS_GPS_DEP_F = 0x0086"
definition SBP_MSG_EPHEMERIS_BDS :: nat where "SBP_MSG_EPHEMERIS_BDS = 0x0089"
definition SBP_MSG_EPHEMERIS_GAL :: nat where "SBP_MSG_EPHEMERIS_GAL = 0x008D"
definition SBP_MSG_EPHEMERIS_SBAS_DEP_A :: nat where "SBP_MSG_EPHEMERIS_SBAS_DEP_A = 0x0082"
definition SBP_MSG_EPHEMERIS_GLO_DEP_A :: nat where "SBP_MSG_EPHEMERIS_GLO_DEP_A = 0x0083"
definition SBP_MSG_EPHEMERIS_SBAS_DEP_B :: nat where "SBP_MSG_EPHEMERIS_SBAS_DEP_B = 0x0084"
definition SBP_MSG_EPHEMERIS_SBAS :: nat where "SBP_MSG_EPHEMERIS_SBAS = 0x008C"
definition SBP_MSG_EPHEMERIS_GLO_DEP_B :: nat where "SBP_MSG_EPHEMERIS_GLO_DEP_B = 0x0085"
definition SBP_MSG_EPHEMERIS_GLO_DEP_C :: nat where "SBP_MSG_EPHEMERIS_GLO_DEP_C = 0x0087"
definition SBP_MSG_EPHEMERIS_GLO_DEP_D :: nat where "SBP_MSG_EPHEMERIS_GLO_DEP_D = 0x0088"
definition SBP_MSG_EPHEMERIS_GLO :: nat where "SBP_MSG_EPHEMERIS_GLO = 0x008B"
definition SBP_MSG_EPHEMERIS_QZSS :: nat where "SBP_MSG_EPHEMERIS_QZSS = 0x008E"
definition SBP_MSG_EPHEMERIS_DEP_D :: nat where "SBP_MSG_EPHEMERIS_DEP_D = 0x0080"
definition SBP_MSG_EPHEMERIS_DEP_A :: nat where "SBP_MSG_EPHEMERIS_DEP_A = 0x001A"
definition SBP_MSG_EPHEMERIS_DEP_B :: nat where "SBP_MSG_EPHEMERIS_DEP_B = 0x0046"
definition SBP_MSG_EPHEMERIS_DEP_C :: nat where "SBP_MSG_EPHEMERIS_DEP_C = 0x0047"
definition SBP_MSG_BASE_POS_LLH :: nat where "SBP_MSG_BASE_POS_LLH = 0x0044"
definition SBP_MSG_BASE_POS_ECEF :: nat where "SBP_MSG_BASE_POS_ECEF = 0x0048"
definition SBP_MSG_IONO :: nat where "SBP_MSG_IONO = 0x0090"
definition SBP_MSG_GLO_BIASES :: nat where "SBP_MSG_GLO_BIASES = 0x0075"

definition msgs_filter :: "nat list" where
  "msgs_filter =
    [SBP_MSG_OBS,
     SBP_MSG_OSR,
     SBP_MSG_EPHEMERIS_GPS,
     SBP_MSG_EPHEMERIS_GPS_DEP_E,
     SBP_MSG_EPHEMERIS_GPS_DEP_F,
     SBP_MSG_EPHEMERIS_BDS,
     SBP_MSG_EPHEMERIS_GAL,
     SBP_MSG_EPHEMERIS_SBAS_DEP_A,
     SBP_MSG_EPHEMERIS_GLO_DEP_A,
     SBP_MSG_EPHEMERIS_SBAS_DEP_B,
     SBP_MSG_EPHEMERIS_SBAS,
     SBP_MSG_EPHEMERIS_GLO_DEP_B,
     SBP_MSG_EPHEMERIS_GLO_DEP_C,
     SBP_MSG_EPHEMERIS_GLO_DEP_D,
     SBP_MSG_EPHEMERIS_GLO,
     SBP_MSG_EPHEMERIS_DEP_D,
     SBP_MSG_EPHEMERIS_DEP_A,
     SBP_MSG_EPHEMERIS_DEP_B,
     SBP_MSG_EPHEMERIS_DEP_C,
     SBP_MSG_BASE_POS_LLH,
     SBP_MSG_BASE_POS_ECEF,
     SBP_MSG_IONO,
     SBP_MSG_GLO_BIASES]"

definition msgs_filter_eph :: "nat list" where
  "msgs_filter_eph =
    [SBP_MSG_EPHEMERIS_GPS,
     SBP_MSG_EPHEMERIS_GPS_DEP_E,
     SBP_MSG_EPHEMERIS_GPS_DEP_F,
     SBP_MSG_EPHEMERIS_BDS,
     SBP_MSG_EPHEMERIS_GAL,
     SBP_MSG_EPHEMERIS_SBAS,
     SBP_MSG_EPHEMERIS_SBAS_DEP_A,
     SBP_MSG_EPHEMERIS_SBAS_DEP_B,
     SBP_MSG_EPHEMERIS_QZSS,
     SBP_MSG_EPHEMERIS_GLO,
     SBP_MSG_EPHEMERIS_GLO_DEP_A,
     SBP_MSG_EPHEMERIS_GLO_DEP_B,
     SBP_MSG_EPHEMERIS_GLO_DEP_C,
     SBP_MSG_EPHEMERIS_GLO_DEP_D,
     SBP_MSG_EPHEMERIS_DEP_A,
     SBP_MSG_EPHEMERIS_DEP_B,
     SBP_MSG_EPHEMERIS_DEP_C,
     SBP_MSG_EPHEMERIS_DEP_D]"

subsection \<open>Timestamp extraction and the comparators\<close>

text \<open>
  Reading an attribute path of a message: the value, or \<^verbatim>\<open>AttributeError\<close>.
\<close>

definition attr :: "gpstime option \<Rightarrow> error + gpstime option" where
  "attr field = (case field of None \<Rightarrow> Inl AttributeError | Some t \<Rightarrow> Inr (Some t))"

text \<open>
  \<^verbatim>\<open>extract_gpstime(msg, last_gpstime)\<close>. The result \<open>Inr None\<close> is Python's \<^verbatim>\<open>None\<close>,
  returned when no branch of the chain is taken. The last disjunct of the last
  condition is the constant \<^verbatim>\<open>ob.SBP_MSG_GLO_BIASES\<close> itself, tested for truth, which
  for an integer means being non-zero.
\<close>

definition extract_gpstime :: "msg \<Rightarrow> gpstime \<Rightarrow> error + gpstime option" where
  "extract_gpstime m last_gpstime =
    (if msg_type m = SBP_MSG_OBS \<or> msg_type m = SBP_MSG_OSR then attr (header_t m)
     else if msg_type m \<in> set msgs_filter_eph then attr (common_toe m)
     else if msg_type m = SBP_MSG_IONO then attr (t_nmct m)
     else if msg_type m = SBP_MSG_BASE_POS_ECEF \<or> msg_type m = SBP_MSG_BASE_POS_LLH
             \<or> SBP_MSG_GLO_BIASES \<noteq> 0 then Inr (Some last_gpstime)
     else Inr None)"

definition compare_gpstime :: "gpstime \<Rightarrow> gpstime \<Rightarrow> nat" where
  "compare_gpstime g0 g1 =
    (if fst g0 < fst g1 then 0
     else if fst g0 > fst g1 then 1
     else if snd g0 < snd g1 then 0
     else if snd g0 > snd g1 then 1
     else 0)"

subsection \<open>Python floats\<close>

text \<open>
  \<^verbatim>\<open>main\<close> passes \<^verbatim>\<open>1000 / float(args.brate[0])\<close> as \<^verbatim>\<open>brate\<close>, a Python float, that is an
  IEEE 754 double. \<open>Finite m e\<close> stands for the number \<open>m * 2 ^ e\<close>; a double is such a
  number with \<open>\<bar>m\<bar> < 2 ^ 53\<close> and \<open>- 1074 \<le> e \<le> 971\<close>. The sign of a zero is not kept: no
  comparison tells the two zeros apart.
\<close>

datatype pyfloat = Finite int int | PInf | NInf | NaN



text \<open>\<open>m1 * 2 ^ e1 \<le> m2 * 2 ^ e2\<close>, computed on integers.\<close>

definition dyadic_le :: "int \<Rightarrow> int \<Rightarrow> int \<Rightarrow> int \<Rightarrow> bool" where
  "dyadic_le m1 e1 m2 e2 =
    (m1 * 2 ^ nat (e1 - min e1 e2) \<le> m2 * 2 ^ nat (e2 - min e1 e2))"

text \<open>\<open>m / 2 ^ k\<close> rounded to the nearest integer, a tie to the even one.\<close>

definition round_half_even :: "int \<Rightarrow> nat \<Rightarrow> int" where
  "round_half_even m k =
    (let q = m div 2 ^ k; r = m mod 2 ^ k in
     if 2 * r < 2 ^ k then q
     else if 2 * r > 2 ^ k then q + 1
     else if even q then q else q + 1)"

text \<open>
  The double nearest to \<open>m * 2 ^ e\<close> (round to nearest, ties to even): the bits beyond
  the 53 of the significand, or below \<open>2 ^ - 1074\<close>, are rounded away; a result of
  magnitude \<open>2 ^ 1024\<close> or more is an infinity.
\<close>

definition round_double :: "int \<Rightarrow> int \<Rightarrow> pyfloat" where
  "round_double m e =
    (let k = max (bitlen \<bar>m\<bar> - 53) (- 1074 - e);
         m' = (if k \<le> 0 then m else round_half_even m (nat k));
         e' = (if k \<le> 0 then e else e + k)
     in if dyadic_le (2 ^ 1024) 0 \<bar>m'\<bar> e' then (if 0 < m' then PInf else NInf)
        else Finite m' e')"

text \<open>
  The conversion of an \<^verbatim>\<open>int\<close> operand of a mixed sum: correctly rounded, and an
  \<^verbatim>\<open>OverflowError\<close> for an integer beyond the range of the doubles.
\<close>

definition float_of_int :: "int \<Rightarrow> error + pyfloat" where
  "float_of_int n =
    (case round_double n 0 of
       PInf \<Rightarrow> Inl OverflowError
     | NInf \<Rightarrow> Inl OverflowError
     | f \<Rightarrow> Inr f)"

text \<open>The sum of two floats: the exact sum, rounded once.\<close>

definition float_add :: "pyfloat \<Rightarrow> pyfloat \<Rightarrow> pyfloat" where
  "float_add x y =
    (case (x, y) of
       (NaN, _) \<Rightarrow> NaN
     | (_, NaN) \<Rightarrow> NaN
     | (PInf, NInf) \<Rightarrow> NaN
     | (NInf, PInf) \<Rightarrow> NaN
     | (PInf, _) \<Rightarrow> PInf
     | (_, PInf) \<Rightarrow> PInf
     | (NInf, _) \<Rightarrow> NInf
     | (_, NInf) \<Rightarrow> NInf
     | (Finite m1 e1, Finite m2 e2) \<Rightarrow>
         (let e = min e1 e2 in
          round_double (m1 * 2 ^ nat (e1 - e) + m2 * 2 ^ nat (e2 - e)) e))"

text \<open>
  \<^verbatim>\<open>n >= f\<close> for an \<^verbatim>\<open>int\<close> and a float: Python compares the two numbers exactly, and
  every comparison with a NaN is false.
\<close>

definition int_ge_float :: "int \<Rightarrow> pyfloat \<Rightarrow> bool" where
  "int_ge_float n f =
    (case f of
       Finite m e \<Rightarrow> dyadic_le m e n 0
     | PInf \<Rightarrow> False
     | NInf \<Rightarrow> True
     | NaN \<Rightarrow> False)"

subsection \<open>The rate comparator\<close>

text \<open>
  \<^verbatim>\<open>g1[1] + brate\<close> adds an \<^verbatim>\<open>int\<close> to a float: the integer is converted, and the sum
  is a float.
\<close>

definition compare_gpstime_brate :: "gpstime \<Rightarrow> gpstime \<Rightarrow> pyfloat \<Rightarrow> error + nat" where
  "compare_gpstime_brate g0 g1 brate =
    (if fst g0 < fst g1 then Inr 0
     else if fst g0 > fst g1 then Inr 1
     else if snd g0 = snd g1 then Inr 1
     else case float_of_int (int (snd g1)) of
       Inl e \<Rightarrow> Inl e
     | Inr f \<Rightarrow> if int_ge_float (int (snd g0)) (float_add f brate) then Inr 1 else Inr 0)"

subsection \<open>The merge loop\<close>

text \<open>
  The state of \<^verbatim>\<open>zip_json_generators\<close>: the two generators as the lists of messages
  they have still to yield, the two pending messages, the two remembered times, the
  messages passed to \<^verbatim>\<open>emit_fn\<close> so far (oldest first), the messages passed to
  \<^verbatim>\<open>extract_gpstime\<close> so far with the side they were pulled from, and the exception
  that ended the run, if one did.
\<close>

datatype side = Base | Rover

record zstate =
  base_gen :: "msg list"
  rove_gen :: "msg list"
  base_msg :: "msg option"
  rove_msg :: "msg option"
  last_gpstime :: gpstime
  last_base_gpstime :: gpstime
  emitted :: "msg list"
  extracted :: "(side \<times> msg) list"
  raised :: "error option"

text \<open>
  The loop \<^verbatim>\<open>while base_msg is None\<close>. The time is extracted from every message
  pulled, before the test on its type; the conjunction then tests the type first and
  compares the times, subscripting the extracted value, only for a type of the filter.
\<close>

function pull_base :: "pyfloat \<Rightarrow> zstate \<Rightarrow> zstate" where
  "pull_base brate s =
    (if base_msg s \<noteq> None then s
     else case base_gen s of
       [] \<Rightarrow> s
     | m # ms \<Rightarrow>
        (let s' = s\<lparr>base_gen := ms, extracted := extracted s @ [(Base, m)]\<rparr> in
         case extract_gpstime m (last_gpstime s) of
           Inl e \<Rightarrow> s'\<lparr>base_msg := Some m, raised := Some e\<rparr>
         | Inr base_gpstime \<Rightarrow>
            if msg_type m \<in> set msgs_filter then
              (case base_gpstime of
                 None \<Rightarrow> s'\<lparr>base_msg := Some m, raised := Some TypeError\<rparr>
               | Some g \<Rightarrow>
                  (case compare_gpstime_brate g (last_base_gpstime s) brate of
                     Inl e \<Rightarrow> s'\<lparr>base_msg := Some m, raised := Some e\<rparr>
                   | Inr c \<Rightarrow>
                      if c \<noteq> 0
                      then s'\<lparr>last_base_gpstime := g, base_msg := Some (m\<lparr>sender := 0\<rparr>)\<rparr>
                      else pull_base brate s'))
            else pull_base brate s'))"
  by pat_completeness auto
termination
  by (relation "measure (\<lambda>(brate, s). length (base_gen s))") auto

declare pull_base.simps [simp del]

text \<open>The loop \<^verbatim>\<open>while rove_msg is None\<close>.\<close>

function pull_rove :: "zstate \<Rightarrow> zstate" where
  "pull_rove s =
    (if rove_msg s \<noteq> None then s
     else case rove_gen s of
       [] \<Rightarrow> s
     | m # ms \<Rightarrow>
        if sender m \<noteq> 0 \<and> msg_type m \<in> set msgs_filter
        then s\<lparr>rove_gen := ms, rove_msg := Some m\<rparr>
        else pull_rove (s\<lparr>rove_gen := ms\<rparr>))"
  by pat_completeness auto
termination
  by (relation "measure (\<lambda>s. length (rove_gen s))") auto

declare pull_rove.simps [simp del]

text \<open>
  The rest of one iteration of \<^verbatim>\<open>while True\<close>, after the two pulls: the state it
  leaves, and whether the loop goes round again (\<open>True\<close>) or the function returns.
\<close>

definition emit :: "msg \<Rightarrow> zstate \<Rightarrow> zstate" where
  "emit m s = s\<lparr>emitted := emitted s @ [m]\<rparr>"

definition emit_next :: "zstate \<Rightarrow> zstate \<times> bool" where
  "emit_next s =
    (case (base_msg s, rove_msg s) of
       (None, None) \<Rightarrow> (s, False)
     | (None, Some r) \<Rightarrow> ((emit r s)\<lparr>rove_msg := None\<rparr>, True)
     | (Some b, None) \<Rightarrow> ((emit b s)\<lparr>base_msg := None\<rparr>, True)
     | (Some b, Some r) \<Rightarrow>
        (let s1 = s\<lparr>extracted := extracted s @ [(Base, b)]\<rparr> in
         case extract_gpstime b (last_gpstime s) of
           Inl e \<Rightarrow> (s1\<lparr>raised := Some e\<rparr>, False)
         | Inr base_time \<Rightarrow>
            (let s2 = s1\<lparr>extracted := extracted s1 @ [(Rover, r)]\<rparr> in
             case extract_gpstime r (last_gpstime s) of
               Inl e \<Rightarrow> (s2\<lparr>raised := Some e\<rparr>, False)
             | Inr rove_time \<Rightarrow>
                (case (rove_time, base_time) of
                   (Some rt, Some bt) \<Rightarrow>
                     (if compare_gpstime rt bt = 1
                      then ((emit b s2)\<lparr>base_msg := None, last_gpstime := bt\<rparr>, True)
                      else ((emit r s2)\<lparr>rove_msg := None, last_gpstime := rt\<rparr>, True))
                 | _ \<Rightarrow> (s2\<lparr>raised := Some TypeError\<rparr>, False)))))"

definition zip_body :: "pyfloat \<Rightarrow> zstate \<Rightarrow> zstate \<times> bool" where
  "zip_body brate s =
    (let s1 = pull_base brate s in
     if raised s1 \<noteq> None then (s1, False)
     else emit_next (pull_rove s1))"

text \<open>
  What is still to be handled: the messages the generators have still to yield and the
  pending ones. Every iteration that goes round again hands one pending message to
  \<^verbatim>\<open>emit_fn\<close>, so this number decreases and the loop ends.
\<close>

definition pending :: "zstate \<Rightarrow> nat" where
  "pending s =
    length (base_gen s) + length (rove_gen s)
    + (if base_msg s = None then 0 else 1) + (if rove_msg s = None then 0 else 1)"

lemma pull_base_Some: "base_msg s \<noteq> None \<Longrightarrow> pull_base brate s = s"
  by (subst pull_base.simps) simp

lemma pull_base_Nil: "base_gen s = [] \<Longrightarrow> pull_base brate s = s"
  by (subst pull_base.simps) simp

lemma pull_base_Cons:
  "base_msg s = None \<Longrightarrow> base_gen s = m # ms \<Longrightarrow>
   pull_base brate s =
     (let s' = s\<lparr>base_gen := ms, extracted := extracted s @ [(Base, m)]\<rparr> in
      case extract_gpstime m (last_gpstime s) of
        Inl e \<Rightarrow> s'\<lparr>base_msg := Some m, raised := Some e\<rparr>
      | Inr base_gpstime \<Rightarrow>
         if msg_type m \<in> set msgs_filter then
           (case base_gpstime of
              None \<Rightarrow> s'\<lparr>base_msg := Some m, raised := Some TypeError\<rparr>
            | Some g \<Rightarrow>
               (case compare_gpstime_brate g (last_base_gpstime s) brate of
                  Inl e \<Rightarrow> s'\<lparr>base_msg := Some m, raised := Some e\<rparr>
                | Inr c \<Rightarrow>
                   if c \<noteq> 0
                   then s'\<lparr>last_base_gpstime := g, base_msg := Some (m\<lparr>sender := 0\<rparr>)\<rparr>
                   else pull_base brate s'))
         else pull_base brate s')"
  by (subst pull_base.simps) simp

lemma pull_rove_Some: "rove_msg s \<noteq> None \<Longrightarrow> pull_rove s = s"
  by (subst pull_rove.simps) simp

lemma pull_rove_Nil: "rove_gen s = [] \<Longrightarrow> pull_rove s = s"
  by (subst pull_rove.simps) simp

lemma pull_rove_Cons:
  "rove_msg s = None \<Longrightarrow> rove_gen s = m # ms \<Longrightarrow>
   pull_rove s =
     (if sender m \<noteq> 0 \<and> msg_type m \<in> set msgs_filter
      then s\<lparr>rove_gen := ms, rove_msg := Some m\<rparr>
      else pull_rove (s\<lparr>rove_gen := ms\<rparr>))"
  by (subst pull_rove.simps) simp

lemma pending_pull_base: "pending (pull_base brate s) \<le> pending s"
proof (induction "base_gen s" arbitrary: s)
  case Nil
  then show ?case by (simp add: pull_base_Nil)
next
  case (Cons m ms)
  show ?case
  proof (cases "base_msg s")
    case (Some b)
    then show ?thesis by (simp add: pull_base_Some)
  next
    case None
    let ?s' = "s\<lparr>base_gen := ms, extracted := extracted s @ [(Base, m)]\<rparr>"
    have "pending (pull_base brate ?s') \<le> pending ?s'"
      by (rule Cons.hyps(1)) simp
    moreover have "pending ?s' \<le> pending s"
      using Cons.hyps(2)[symmetric] by (simp add: pending_def)
    ultimately have ih: "pending (pull_base brate ?s') \<le> pending s" by simp
    show ?thesis
      using ih None Cons.hyps(2)[symmetric]
      by (auto simp add: pull_base_Cons[OF None Cons.hyps(2)[symmetric]] Let_def pending_def
               split: sum.splits option.splits)
  qed
qed

lemma pending_pull_rove: "pending (pull_rove s) \<le> pending s"
proof (induction "rove_gen s" arbitrary: s)
  case Nil
  then show ?case by (simp add: pull_rove_Nil)
next
  case (Cons m ms)
  show ?case
  proof (cases "rove_msg s")
    case (Some b)
    then show ?thesis by (simp add: pull_rove_Some)
  next
    case None
    let ?s' = "s\<lparr>rove_gen := ms\<rparr>"
    have "pending (pull_rove ?s') \<le> pending ?s'"
      by (rule Cons.hyps(1)) simp
    moreover have "pending ?s' \<le> pending s"
      using Cons.hyps(2)[symmetric] by (simp add: pending_def)
    ultimately have ih: "pending (pull_rove ?s') \<le> pending s" by simp
    show ?thesis
      using ih None Cons.hyps(2)[symmetric]
      by (auto simp add: pull_rove_Cons[OF None Cons.hyps(2)[symmetric]] pending_def)
  qed
qed

lemma pending_emit_next: "emit_next s = (s', True) \<Longrightarrow> pending s' < pending s"
  by (auto simp add: emit_next_def emit_def pending_def Let_def
           split: option.splits sum.splits if_splits)

lemma pending_zip_body: "zip_body brate s = (s', True) \<Longrightarrow> pending s' < pending s"
proof -
  assume a: "zip_body brate s = (s', True)"
  then have e: "emit_next (pull_rove (pull_base brate s)) = (s', True)"
    by (auto simp add: zip_body_def Let_def split: if_splits)
  have "pending s' < pending (pull_rove (pull_base brate s))"
    using e by (rule pending_emit_next)
  also have "\<dots> \<le> pending (pull_base brate s)" by (rule pending_pull_rove)
  also have "\<dots> \<le> pending s" by (rule pending_pull_base)
  finally show ?thesis .
qed

text \<open>The loop \<^verbatim>\<open>while True\<close> of \<^verbatim>\<open>zip_json_generators\<close>.\<close>

function zip_loop :: "pyfloat \<Rightarrow> zstate \<Rightarrow> zstate" where
  "zip_loop brate s =
    (let (s', again) = zip_body brate s in
     if again then zip_loop brate s' else s')"
  by pat_completeness auto
termination
  by (relation "measure (\<lambda>(brate, s). pending s)") (auto simp add: pending_zip_body)

declare zip_loop.simps [simp del]

text \<open>
  \<^verbatim>\<open>zip_json_generators(base_gen, rove_gen, emit_fn, brate)\<close>: the state in which the
  loop ends. The calls of \<^verbatim>\<open>emit_fn\<close> are the field \<open>emitted\<close> of that state.
\<close>

definition zip_json_generators :: "msg list \<Rightarrow> msg list \<Rightarrow> pyfloat \<Rightarrow> zstate" where
  "zip_json_generators base rove brate =
    zip_loop brate
      \<lparr>base_gen = base, rove_gen = rove, base_msg = None, rove_msg = None,
       last_gpstime = (0, 0), last_base_gpstime = (0, 0),
       emitted = [], extracted = [], raised = None\<rparr>"


subsection \<open>The splitting loop of main\<close>

text \<open>
  The loop that \<^verbatim>\<open>main\<close> runs when no base log is given. The two output files are
  the lists of the strings written to them, oldest first. \<^verbatim>\<open>to_json\<close> is a method of
  the sbp library's message class and is a parameter here.
\<close>

record split_files =
  base_log_file :: "string list"
  rover_log_file :: "string list"

fun split_log :: "(msg \<Rightarrow> string) \<Rightarrow> msg list \<Rightarrow> split_files \<Rightarrow> split_files" where
  "split_log to_json [] f = f"
| "split_log to_json (m # msg_gen) f =
    (if sender m = 0
     then split_log to_json msg_gen
            (f\<lparr>base_log_file := base_log_file f @ [to_json m @ [CHR 0x0A]]\<rparr>)
     else split_log to_json msg_gen
            (f\<lparr>rover_log_file := rover_log_file f @ [to_json m @ [CHR 0x0A]]\<rparr>))"

subsection \<open>Notions of the specification\<close>

text \<open>The lexicographic order on \<^verbatim>\<open>(wn, tow)\<close>.\<close>

definition gps_le :: "gpstime \<Rightarrow> gpstime \<Rightarrow> bool" where
  "gps_le a b = (fst a < fst b \<or> (fst a = fst b \<and> snd a \<le> snd b))"

text \<open>
  The times of a sequence of messages under the fallback threading: each message is
  extracted with the time of the message before it as the last known time, the first
  one with \<open>fallback\<close>. There are none if an extraction raises or returns \<^verbatim>\<open>None\<close>.
\<close>

fun gps_times :: "gpstime \<Rightarrow> msg list \<Rightarrow> gpstime list option" where
  "gps_times fallback [] = Some []"
| "gps_times fallback (m # ms) =
    (case extract_gpstime m fallback of
       Inr (Some t) \<Rightarrow> map_option ((#) t) (gps_times t ms)
     | _ \<Rightarrow> None)"

definition nondecreasing :: "msg list \<Rightarrow> bool" where
  "nondecreasing ms =
    (case gps_times (0, 0) ms of None \<Rightarrow> False | Some ts \<Rightarrow> sorted_wrt gps_le ts)"

text \<open>
  The same in one pass, from a lower bound: every time is at least the one before it,
  the first one at least \<open>l\<close>.
\<close>

fun ordered_from :: "gpstime \<Rightarrow> msg list \<Rightarrow> bool" where
  "ordered_from l [] = True"
| "ordered_from l (m # ms) =
    (case extract_gpstime m l of
       Inr (Some t) \<Rightarrow> gps_le l t \<and> ordered_from t ms
     | _ \<Rightarrow> False)"

text \<open>The time the threading ends with.\<close>

fun end_time :: "gpstime \<Rightarrow> msg list \<Rightarrow> gpstime" where
  "end_time l [] = l"
| "end_time l (m # ms) =
    (case extract_gpstime m l of
       Inr (Some t) \<Rightarrow> end_time t ms
     | _ \<Rightarrow> l)"

text \<open>
  The messages of a base sequence that pass the kind filter and the rate gate, as the
  specification describes the base side: a message is discarded if its kind fails the
  filter or its time fails the threshold against the time of the last accepted one;
  an accepted one becomes the last accepted one. \<open>fallback\<close> is the last known time the
  extraction falls back to.
\<close>

fun base_accepted :: "pyfloat \<Rightarrow> gpstime \<Rightarrow> gpstime \<Rightarrow> msg list \<Rightarrow> msg list" where
  "base_accepted brate fallback last_base [] = []"
| "base_accepted brate fallback last_base (m # ms) =
    (case extract_gpstime m fallback of
       Inr (Some g) \<Rightarrow>
         if msg_type m \<in> set msgs_filter then
           (case compare_gpstime_brate g last_base brate of
              Inr c \<Rightarrow>
                if c \<noteq> 0 then m # base_accepted brate fallback g ms
                else base_accepted brate fallback last_base ms
            | Inl e \<Rightarrow> [])
         else base_accepted brate fallback last_base ms
     | _ \<Rightarrow> [])"

text \<open>The messages a rover sequence has accepted: a sender that is not zero, a kind of the filter.\<close>

definition rove_accepted :: "msg list \<Rightarrow> msg list" where
  "rove_accepted ms = filter (\<lambda>m. sender m \<noteq> 0 \<and> msg_type m \<in> set msgs_filter) ms"

subsection \<open>Auxiliary notions\<close>

text \<open>What a side has still to give: its pending message, then what its generator holds.\<close>

definition base_rest :: "zstate \<Rightarrow> msg list" where
  "base_rest s = (case base_msg s of None \<Rightarrow> [] | Some b \<Rightarrow> [b]) @ base_gen s"

definition rove_rest :: "zstate \<Rightarrow> msg list" where
  "rove_rest s = (case rove_msg s of None \<Rightarrow> [] | Some r \<Rightarrow> [r]) @ rove_gen s"

text \<open>
  The attribute path \<^verbatim>\<open>extract_gpstime\<close> reads from a message, if it reads one: the
  branch of the chain that the type of the message selects.
\<close>

definition time_field :: "msg \<Rightarrow> gpstime option option" where
  "time_field m =
    (if msg_type m = SBP_MSG_OBS \<or> msg_type m = SBP_MSG_OSR then Some (header_t m)
     else if msg_type m \<in> set msgs_filter_eph then Some (common_toe m)
     else if msg_type m = SBP_MSG_IONO then Some (t_nmct m)
     else None)"


text \<open>Invariants of the loop.\<close>

definition pass_through :: "msg \<Rightarrow> bool" where
  "pass_through m = (msg_type m \<in> set msgs_filter)"

definition kinds_ok :: "zstate \<Rightarrow> bool" where
  "kinds_ok s =
    (\<forall>m \<in> set (emitted s) \<union> set_option (rove_msg s)
        \<union> (if raised s = None then set_option (base_msg s) else {}). pass_through m)"

definition types_within :: "nat set \<Rightarrow> zstate \<Rightarrow> bool" where
  "types_within T s =
    (\<forall>m \<in> set (emitted s) \<union> set (base_rest s) \<union> set (rove_rest s). msg_type m \<in> T)"

subsection \<open>Messages for the examples\<close>

text \<open>
  An observation message with its time, a message of the base position kind, which
  has no time of its own, a QZSS ephemeris with its time of ephemeris, and a heartbeat,
  whose type \<open>0xFFFF\<close> is in neither list.
\<close>

definition obs_msg :: "nat \<Rightarrow> gpstime \<Rightarrow> msg" where
  "obs_msg sndr t =
    \<lparr>msg_type = SBP_MSG_OBS, sender = sndr, header_t = Some t, common_toe = None,
     t_nmct = None, payload = []\<rparr>"

definition base_pos_msg :: "nat \<Rightarrow> msg" where
  "base_pos_msg sndr =
    \<lparr>msg_type = SBP_MSG_BASE_POS_ECEF, sender = sndr, header_t = None, common_toe = None,
     t_nmct = None, payload = []\<rparr>"

definition qzss_msg :: "nat \<Rightarrow> gpstime \<Rightarrow> msg" where
  "qzss_msg sndr t =
    \<lparr>msg_type = SBP_MSG_EPHEMERIS_QZSS, sender = sndr, header_t = None, common_toe = Some t,
     t_nmct = None, payload = []\<rparr>"

definition heartbeat_msg :: "nat \<Rightarrow> msg" where
  "heartbeat_msg sndr =
    \<lparr>msg_type = 0xFFFF, sender = sndr, header_t = None, common_toe = None,
     t_nmct = None, payload = []\<rparr>"

section \<open>Properties\<close>

lemmas sbp_ids =
  SBP_MSG_OBS_def SBP_MSG_OSR_def SBP_MSG_EPHEMERIS_GPS_def
  SBP_MSG_EPHEMERIS_GPS_DEP_E_def SBP_MSG_EPHEMERIS_GPS_DEP_F_def
  SBP_MSG_EPHEMERIS_BDS_def SBP_MSG_EPHEMERIS_GAL_def
  SBP_MSG_EPHEMERIS_SBAS_DEP_A_def SBP_MSG_EPHEMERIS_GLO_DEP_A_def
  SBP_MSG_EPHEMERIS_SBAS_DEP_B_def SBP_MSG_EPHEMERIS_SBAS_def
  SBP_MSG_EPHEMERIS_GLO_DEP_B_def SBP_MSG_EPHEMERIS_GLO_DEP_C_def
  SBP_MSG_EPHEMERIS_GLO_DEP_D_def SBP_MSG_EPHEMERIS_GLO_def
  SBP_MSG_EPHEMERIS_QZSS_def SBP_MSG_EPHEMERIS_DEP_D_def
  SBP_MSG_EPHEMERIS_DEP_A_def SBP_MSG_EPHEMERIS_DEP_B_def
  SBP_MSG_EPHEMERIS_DEP_C_def SBP_MSG_BASE_POS_LLH_def
  SBP_MSG_BASE_POS_ECEF_def SBP_MSG_IONO_def SBP_MSG_GLO_BIASES_def

subsection \<open>Extraction\<close>

lemma extract_gpstime_field:
  "extract_gpstime m l =
    (case time_field m of
       None \<Rightarrow> Inr (Some l)
     | Some None \<Rightarrow> Inl AttributeError
     | Some (Some t) \<Rightarrow> Inr (Some t))"
  by (simp add: extract_gpstime_def time_field_def attr_def SBP_MSG_GLO_BIASES_def
           split: option.splits)

lemma extract_not_None: "extract_gpstime m l \<noteq> Inr None"
  by (simp add: extract_gpstime_field split: option.splits)

lemma extract_error_indep: "extract_gpstime m l = Inl e \<Longrightarrow> extract_gpstime m l' = Inl e"
  by (simp add: extract_gpstime_field split: option.splits)

lemma extract_cases:
  "extract_gpstime m l = Inr (Some t) \<Longrightarrow>
   extract_gpstime m l' = Inr (Some t) \<or> (t = l \<and> extract_gpstime m l' = Inr (Some l'))"
  by (simp add: extract_gpstime_field split: option.splits)

lemma extract_sender [simp]: "extract_gpstime (m\<lparr>sender := x\<rparr>) l = extract_gpstime m l"
  by (simp add: extract_gpstime_def)

lemma extract_result:
  obtains (Raise) e where "extract_gpstime m l = Inl e"
  | (Time) t where "extract_gpstime m l = Inr (Some t)"
proof (cases "extract_gpstime m l")
  case (Inl e)
  then show ?thesis by (rule Raise)
next
  case (Inr v)
  then show ?thesis using extract_not_None[of m l] Time by (cases v) auto
qed

subsection \<open>The order\<close>

lemma gps_le_refl [simp]: "gps_le a a"
  by (simp add: gps_le_def)

lemma gps_le_trans: "gps_le a b \<Longrightarrow> gps_le b c \<Longrightarrow> gps_le a c"
  by (auto simp add: gps_le_def)

lemma gps_le_antisym: "gps_le a b \<Longrightarrow> gps_le b a \<Longrightarrow> a = b"
  by (auto simp add: gps_le_def prod_eq_iff)

lemma gps_le_zero [simp]: "gps_le (0, 0) a"
  by (auto simp add: gps_le_def)

lemma compare_gpstime_1: "compare_gpstime a b = 1 \<longleftrightarrow> \<not> gps_le a b"
  by (auto simp add: compare_gpstime_def gps_le_def)

lemma not_gps_le: "\<not> gps_le a b \<Longrightarrow> gps_le b a"
  by (auto simp add: gps_le_def)

lemma ordered_from_mono:
  "ordered_from l ms \<Longrightarrow> gps_le l' l \<Longrightarrow> ordered_from l' ms"
proof (induction ms arbitrary: l l')
  case Nil
  then show ?case by simp
next
  case (Cons m ms)
  from Cons.prems(1) obtain t where t: "extract_gpstime m l = Inr (Some t)"
    and lt: "gps_le l t" and rest: "ordered_from t ms"
    by (auto split: sum.splits option.splits)
  from extract_cases[OF t, of l'] show ?case
  proof
    assume "extract_gpstime m l' = Inr (Some t)"
    then show ?thesis using gps_le_trans[OF Cons.prems(2) lt] rest by simp
  next
    assume a: "t = l \<and> extract_gpstime m l' = Inr (Some l')"
    then have "ordered_from l' ms" using Cons.IH[OF _ Cons.prems(2)] rest by simp
    then show ?thesis using a by simp
  qed
qed

lemma ordered_from_tl: "ordered_from l (m # ms) \<Longrightarrow> ordered_from l ms"
  by (auto split: sum.splits option.splits intro: ordered_from_mono)

lemma ordered_from_head:
  "ordered_from l (m # ms) \<Longrightarrow> \<exists>t. extract_gpstime m l = Inr (Some t) \<and> gps_le l t \<and> ordered_from t ms"
  by (auto split: sum.splits option.splits)

lemma ordered_from_sender:
  "ordered_from l (m\<lparr>sender := x\<rparr> # ms) = ordered_from l (m # ms)"
  by simp

lemma ordered_from_raise:
  assumes "ordered_from l (m # ms)" and "extract_gpstime m l = Inr (Some t)"
    and "gps_le l l'" and "gps_le l' t"
  shows "ordered_from l' (m # ms)"
proof -
  have rest: "ordered_from t ms" using assms(1,2) by simp
  from extract_cases[OF assms(2), of l'] show ?thesis
  proof
    assume "extract_gpstime m l' = Inr (Some t)"
    then show ?thesis using rest assms(4) by simp
  next
    assume a: "t = l \<and> extract_gpstime m l' = Inr (Some l')"
    then have "l' = l" using gps_le_antisym assms(3,4) by blast
    then show ?thesis using assms(1) by simp
  qed
qed

lemma ordered_from_append:
  "ordered_from l (xs @ ys) = (ordered_from l xs \<and> ordered_from (end_time l xs) ys)"
  by (induction xs arbitrary: l) (auto split: sum.splits option.splits)

lemma end_time_append:
  "ordered_from l xs \<Longrightarrow> end_time l (xs @ ys) = end_time (end_time l xs) ys"
  by (induction xs arbitrary: l) (auto split: sum.splits option.splits)

lemma gps_times_ordered:
  "ordered_from l ms \<longleftrightarrow> (\<exists>ts. gps_times l ms = Some ts \<and> sorted_wrt gps_le (l # ts))"
proof (induction ms arbitrary: l)
  case Nil
  then show ?case by simp
next
  case (Cons m ms)
  show ?case
  proof (cases rule: extract_result[of m l])
    case (Raise e)
    then show ?thesis by simp
  next
    case (Time t)
    have "(\<exists>ts. gps_times t ms = Some ts \<and> sorted_wrt gps_le (l # t # ts))
      \<longleftrightarrow> gps_le l t \<and> (\<exists>ts. gps_times t ms = Some ts \<and> sorted_wrt gps_le (t # ts))"
      by (auto intro: gps_le_trans)
    then show ?thesis using Time Cons.IH[of t] by (auto simp del: sorted_wrt.simps)
  qed
qed

lemma nondecreasing_ordered: "nondecreasing ms \<longleftrightarrow> ordered_from (0, 0) ms"
  by (auto simp add: nondecreasing_def gps_times_ordered split: option.splits)

subsection \<open>The splitting loop\<close>

lemma split_log_files:
  "base_log_file (split_log to_json ms f) =
     base_log_file f @ map (\<lambda>m. to_json m @ [CHR 0x0A]) (filter (\<lambda>m. sender m = 0) ms)
   \<and> rover_log_file (split_log to_json ms f) =
     rover_log_file f @ map (\<lambda>m. to_json m @ [CHR 0x0A]) (filter (\<lambda>m. sender m \<noteq> 0) ms)"
  by (induction ms arbitrary: f) auto

subsection \<open>Rounding to a double\<close>











subsection \<open>The rate comparator on floats\<close>

lemma float_of_int_exact: "\<bar>n\<bar> < 2 ^ 53 \<Longrightarrow> float_of_int n = Inr (Finite n 0)"
proof -
  assume n: "\<bar>n\<bar> < 2 ^ 53"
  then have "bitlen \<bar>n\<bar> \<le> 53" by (simp add: bitlen_le_iff_power)
  then have k: "max (bitlen \<bar>n\<bar> - 53) (- 1074 - 0) \<le> 0" by simp
  have "\<not> (2::int) ^ 1024 \<le> \<bar>n\<bar>" using n by simp
  then have "\<not> dyadic_le (2 ^ 1024) 0 \<bar>n\<bar> 0" by (simp add: dyadic_le_def)
  with k have "round_double n 0 = Finite n 0"
    unfolding round_double_def Let_def by (simp only: if_True if_False)
  then show ?thesis by (simp add: float_of_int_def)
qed






lemma float_add_exact:
  "\<bar>n + b\<bar> < 2 ^ 53 \<Longrightarrow> float_add (Finite n 0) (Finite b 0) = Finite (n + b) 0"
proof -
  assume n: "\<bar>n + b\<bar> < 2 ^ 53"
  then have "bitlen \<bar>n + b\<bar> \<le> 53" by (simp add: bitlen_le_iff_power)
  then have k: "max (bitlen \<bar>n + b\<bar> - 53) (- 1074 - 0) \<le> 0" by simp
  have "\<not> (2::int) ^ 1024 \<le> \<bar>n + b\<bar>" using n by simp
  then have "\<not> dyadic_le (2 ^ 1024) 0 \<bar>n + b\<bar> 0" by (simp add: dyadic_le_def)
  with k have "round_double (n + b) 0 = Finite (n + b) 0"
    unfolding round_double_def Let_def by (simp only: if_True if_False)
  then show ?thesis by (simp add: float_add_def)
qed

lemma compare_gpstime_brate_whole_eval:
  assumes "t1 < 2 ^ 53" and "\<bar>int t1 + b\<bar> < 2 ^ 53"
  shows "compare_gpstime_brate (w0, t0) (w1, t1) (Finite b 0) =
    Inr (if w0 < w1 then 0 else if w0 > w1 then 1 else if t0 = t1 then 1
         else if int t0 \<ge> int t1 + b then 1 else 0)"
proof -
  have "float_of_int (int t1) = Inr (Finite (int t1) 0)"
    using assms(1) by (intro float_of_int_exact) simp
  then show ?thesis
    using float_add_exact[OF assms(2)]
    by (simp add: compare_gpstime_brate_def int_ge_float_def dyadic_le_def)
qed

subsection \<open>The two pulls, case by case\<close>

lemma pull_base_rel [case_names Stay Raise Overflow Accept Reject]:
  assumes stay: "\<And>s. base_msg s \<noteq> None \<or> base_gen s = [] \<Longrightarrow> P s s"
    and raise: "\<And>s m ms e. base_msg s = None \<Longrightarrow> base_gen s = m # ms \<Longrightarrow>
        extract_gpstime m (last_gpstime s) = Inl e \<Longrightarrow>
        P s (s\<lparr>base_gen := ms, extracted := extracted s @ [(Base, m)],
               base_msg := Some m, raised := Some e\<rparr>)"
    and overflow: "\<And>s m ms g e. base_msg s = None \<Longrightarrow> base_gen s = m # ms \<Longrightarrow>
        extract_gpstime m (last_gpstime s) = Inr (Some g) \<Longrightarrow>
        msg_type m \<in> set msgs_filter \<Longrightarrow>
        compare_gpstime_brate g (last_base_gpstime s) brate = Inl e \<Longrightarrow>
        P s (s\<lparr>base_gen := ms, extracted := extracted s @ [(Base, m)],
               base_msg := Some m, raised := Some e\<rparr>)"
    and accept: "\<And>s m ms g c. base_msg s = None \<Longrightarrow> base_gen s = m # ms \<Longrightarrow>
        extract_gpstime m (last_gpstime s) = Inr (Some g) \<Longrightarrow>
        msg_type m \<in> set msgs_filter \<Longrightarrow>
        compare_gpstime_brate g (last_base_gpstime s) brate = Inr c \<Longrightarrow> c \<noteq> 0 \<Longrightarrow>
        P s (s\<lparr>base_gen := ms, extracted := extracted s @ [(Base, m)],
               last_base_gpstime := g, base_msg := Some (m\<lparr>sender := 0\<rparr>)\<rparr>)"
    and reject: "\<And>s m ms g r. base_msg s = None \<Longrightarrow> base_gen s = m # ms \<Longrightarrow>
        extract_gpstime m (last_gpstime s) = Inr (Some g) \<Longrightarrow>
        msg_type m \<in> set msgs_filter \<longrightarrow>
          compare_gpstime_brate g (last_base_gpstime s) brate = Inr 0 \<Longrightarrow>
        P (s\<lparr>base_gen := ms, extracted := extracted s @ [(Base, m)]\<rparr>) r \<Longrightarrow> P s r"
  shows "P s (pull_base brate s)"
proof (induction "base_gen s" arbitrary: s)
  case Nil
  then show ?case using stay[of s] by (simp add: pull_base_Nil)
next
  case (Cons m ms)
  show ?case
  proof (cases "base_msg s")
    case (Some b)
    then show ?thesis using stay[of s] by (simp add: pull_base_Some)
  next
    case None
    note g = Cons.hyps(2)[symmetric]
    let ?s' = "s\<lparr>base_gen := ms, extracted := extracted s @ [(Base, m)]\<rparr>"
    have ih: "P ?s' (pull_base brate ?s')"
      by (rule Cons.hyps(1)) simp
    show ?thesis
    proof (cases rule: extract_result[of m "last_gpstime s"])
      case (Raise e)
      then show ?thesis
        using raise[OF None g Raise] by (simp add: pull_base_Cons[OF None g] Let_def)
    next
      case (Time t)
      show ?thesis
      proof (cases "msg_type m \<in> set msgs_filter")
        case False
        then have "pull_base brate s = pull_base brate ?s'"
          by (simp add: pull_base_Cons[OF None g] Time Let_def)
        then show ?thesis using reject[OF None g Time _ ih] False by simp
      next
        case True
        show ?thesis
        proof (cases "compare_gpstime_brate t (last_base_gpstime s) brate")
          case (Inl e)
          then show ?thesis
            using overflow[OF None g Time True Inl]
            by (simp add: pull_base_Cons[OF None g] Time True Let_def)
        next
          case (Inr c)
          show ?thesis
          proof (cases "c = 0")
            case False
            then show ?thesis
              using accept[OF None g Time True Inr]
              by (simp add: pull_base_Cons[OF None g] Time True Inr Let_def)
          next
            case c0: True
            then have "pull_base brate s = pull_base brate ?s'"
              by (simp add: pull_base_Cons[OF None g] Time True Inr Let_def)
            then show ?thesis using reject[OF None g Time _ ih] Inr c0 by simp
          qed
        qed
      qed
    qed
  qed
qed

lemma pull_rove_rel [case_names Stay Accept Reject]:
  assumes stay: "\<And>s. rove_msg s \<noteq> None \<or> rove_gen s = [] \<Longrightarrow> P s s"
    and accept: "\<And>s m ms. rove_msg s = None \<Longrightarrow> rove_gen s = m # ms \<Longrightarrow>
        sender m \<noteq> 0 \<Longrightarrow> msg_type m \<in> set msgs_filter \<Longrightarrow>
        P s (s\<lparr>rove_gen := ms, rove_msg := Some m\<rparr>)"
    and reject: "\<And>s m ms r. rove_msg s = None \<Longrightarrow> rove_gen s = m # ms \<Longrightarrow>
        \<not> (sender m \<noteq> 0 \<and> msg_type m \<in> set msgs_filter) \<Longrightarrow>
        P (s\<lparr>rove_gen := ms\<rparr>) r \<Longrightarrow> P s r"
  shows "P s (pull_rove s)"
proof (induction "rove_gen s" arbitrary: s)
  case Nil
  then show ?case using stay[of s] by (simp add: pull_rove_Nil)
next
  case (Cons m ms)
  show ?case
  proof (cases "rove_msg s")
    case (Some b)
    then show ?thesis using stay[of s] by (simp add: pull_rove_Some)
  next
    case None
    note g = Cons.hyps(2)[symmetric]
    have ih: "P (s\<lparr>rove_gen := ms\<rparr>) (pull_rove (s\<lparr>rove_gen := ms\<rparr>))"
      by (rule Cons.hyps(1)) simp
    show ?thesis
    proof (cases "sender m \<noteq> 0 \<and> msg_type m \<in> set msgs_filter")
      case True
      then show ?thesis
        using accept[OF None g] by (simp add: pull_rove_Cons[OF None g])
    next
      case False
      then have "pull_rove s = pull_rove (s\<lparr>rove_gen := ms\<rparr>)"
        by (auto simp add: pull_rove_Cons[OF None g])
      then show ?thesis using reject[OF None g False ih] by simp
    qed
  qed
qed

lemma pull_base_inv [consumes 1, case_names Raise Overflow Accept Reject]:
  assumes "I s"
    and raise: "\<And>s m ms e. I s \<Longrightarrow> base_msg s = None \<Longrightarrow> base_gen s = m # ms \<Longrightarrow>
        extract_gpstime m (last_gpstime s) = Inl e \<Longrightarrow>
        I (s\<lparr>base_gen := ms, extracted := extracted s @ [(Base, m)],
             base_msg := Some m, raised := Some e\<rparr>)"
    and overflow: "\<And>s m ms g e. I s \<Longrightarrow> base_msg s = None \<Longrightarrow> base_gen s = m # ms \<Longrightarrow>
        extract_gpstime m (last_gpstime s) = Inr (Some g) \<Longrightarrow>
        msg_type m \<in> set msgs_filter \<Longrightarrow>
        compare_gpstime_brate g (last_base_gpstime s) brate = Inl e \<Longrightarrow>
        I (s\<lparr>base_gen := ms, extracted := extracted s @ [(Base, m)],
             base_msg := Some m, raised := Some e\<rparr>)"
    and accept: "\<And>s m ms g c. I s \<Longrightarrow> base_msg s = None \<Longrightarrow> base_gen s = m # ms \<Longrightarrow>
        extract_gpstime m (last_gpstime s) = Inr (Some g) \<Longrightarrow>
        msg_type m \<in> set msgs_filter \<Longrightarrow>
        compare_gpstime_brate g (last_base_gpstime s) brate = Inr c \<Longrightarrow> c \<noteq> 0 \<Longrightarrow>
        I (s\<lparr>base_gen := ms, extracted := extracted s @ [(Base, m)],
             last_base_gpstime := g, base_msg := Some (m\<lparr>sender := 0\<rparr>)\<rparr>)"
    and reject: "\<And>s m ms g. I s \<Longrightarrow> base_msg s = None \<Longrightarrow> base_gen s = m # ms \<Longrightarrow>
        extract_gpstime m (last_gpstime s) = Inr (Some g) \<Longrightarrow>
        msg_type m \<in> set msgs_filter \<longrightarrow>
          compare_gpstime_brate g (last_base_gpstime s) brate = Inr 0 \<Longrightarrow>
        I (s\<lparr>base_gen := ms, extracted := extracted s @ [(Base, m)]\<rparr>)"
  shows "I (pull_base brate s)"
proof -
  have "I s \<longrightarrow> I (pull_base brate s)"
  proof (rule pull_base_rel, goal_cases)
    case (1 s)
    show ?case by blast
  next
    case (2 s m ms e)
    then show ?case using raise by blast
  next
    case (3 s m ms g e)
    then show ?case using overflow by blast
  next
    case (4 s m ms g c)
    then show ?case using accept by blast
  next
    case (5 s m ms g r)
    then show ?case using reject[of s m ms g] by blast
  qed
  then show ?thesis using assms(1) by blast
qed

lemma pull_rove_inv [consumes 1, case_names Accept Reject]:
  assumes "I s"
    and accept: "\<And>s m ms. I s \<Longrightarrow> rove_msg s = None \<Longrightarrow> rove_gen s = m # ms \<Longrightarrow>
        sender m \<noteq> 0 \<Longrightarrow> msg_type m \<in> set msgs_filter \<Longrightarrow>
        I (s\<lparr>rove_gen := ms, rove_msg := Some m\<rparr>)"
    and reject: "\<And>s m ms. I s \<Longrightarrow> rove_msg s = None \<Longrightarrow> rove_gen s = m # ms \<Longrightarrow>
        \<not> (sender m \<noteq> 0 \<and> msg_type m \<in> set msgs_filter) \<Longrightarrow>
        I (s\<lparr>rove_gen := ms\<rparr>)"
  shows "I (pull_rove s)"
proof -
  have "I s \<longrightarrow> I (pull_rove s)"
  proof (rule pull_rove_rel, goal_cases)
    case (1 s)
    show ?case by blast
  next
    case (2 s m ms)
    then show ?case using accept by blast
  next
    case (3 s m ms r)
    then show ?case using reject[of s m ms] by blast
  qed
  then show ?thesis using assms(1) by blast
qed

text \<open>What a pull leaves alone, and what it leaves behind.\<close>

lemma pull_base_frame:
  "emitted (pull_base brate s) = emitted s \<and> last_gpstime (pull_base brate s) = last_gpstime s
   \<and> rove_msg (pull_base brate s) = rove_msg s \<and> rove_gen (pull_base brate s) = rove_gen s"
  by (rule pull_base_rel) simp_all

lemma pull_base_exhausted:
  "base_msg (pull_base brate s) = None \<Longrightarrow> base_gen (pull_base brate s) = []"
  by (rule pull_base_rel[where P = "\<lambda>s r. base_msg r = None \<longrightarrow> base_gen r = []", rule_format])
     auto

lemma pull_rove_frame:
  "emitted (pull_rove s) = emitted s \<and> last_gpstime (pull_rove s) = last_gpstime s
   \<and> base_msg (pull_rove s) = base_msg s \<and> base_gen (pull_rove s) = base_gen s
   \<and> last_base_gpstime (pull_rove s) = last_base_gpstime s
   \<and> extracted (pull_rove s) = extracted s \<and> raised (pull_rove s) = raised s"
  by (rule pull_rove_rel) simp_all

lemma pull_rove_exhausted:
  "rove_msg (pull_rove s) = None \<Longrightarrow> rove_gen (pull_rove s) = []"
  by (rule pull_rove_rel[where P = "\<lambda>s r. rove_msg r = None \<longrightarrow> rove_gen r = []", rule_format])
     auto

subsection \<open>The loop\<close>

lemma zip_loop_again:
  "zip_body brate s = (s', True) \<Longrightarrow> zip_loop brate s = zip_loop brate s'"
  by (subst zip_loop.simps) simp

lemma zip_loop_return:
  "zip_body brate s = (s', False) \<Longrightarrow> zip_loop brate s = s'"
  by (subst zip_loop.simps) simp

lemma zip_loop_rule:
  assumes "I s"
    and "\<And>s s'. I s \<Longrightarrow> zip_body brate s = (s', True) \<Longrightarrow> I s'"
    and "\<And>s s'. I s \<Longrightarrow> zip_body brate s = (s', False) \<Longrightarrow> Q s'"
  shows "Q (zip_loop brate s)"
  using assms(1)
proof (induction "pending s" arbitrary: s rule: less_induct)
  case less
  obtain s' again where b: "zip_body brate s = (s', again)"
    by (cases "zip_body brate s")
  show ?case
  proof (cases again)
    case True
    then have "Q (zip_loop brate s')"
      using less.hyps[of s'] pending_zip_body[of brate s s'] assms(2)[OF less.prems] b by simp
    then show ?thesis using zip_loop_again b True by simp
  next
    case False
    then show ?thesis using assms(3)[OF less.prems] b zip_loop_return by simp
  qed
qed

lemma zip_loop_invariant:
  assumes "I s" and "\<And>s s' again. I s \<Longrightarrow> zip_body brate s = (s', again) \<Longrightarrow> I s'"
  shows "I (zip_loop brate s)"
  using assms(1) by (rule zip_loop_rule[where I = I]) (use assms(2) in blast)+

lemma emit_next_cases [case_names Done RoveOnly BaseOnly RaiseBase RaiseRove EmitBase EmitRove]:
  obtains
    (Done) "base_msg s = None" "rove_msg s = None" "emit_next s = (s, False)"
  | (RoveOnly) r where "base_msg s = None" "rove_msg s = Some r"
      "emit_next s = (s\<lparr>emitted := emitted s @ [r], rove_msg := None\<rparr>, True)"
  | (BaseOnly) b where "base_msg s = Some b" "rove_msg s = None"
      "emit_next s = (s\<lparr>emitted := emitted s @ [b], base_msg := None\<rparr>, True)"
  | (RaiseBase) b r e where "base_msg s = Some b" "rove_msg s = Some r"
      "extract_gpstime b (last_gpstime s) = Inl e"
      "emit_next s = (s\<lparr>extracted := extracted s @ [(Base, b)], raised := Some e\<rparr>, False)"
  | (RaiseRove) b r bt e where "base_msg s = Some b" "rove_msg s = Some r"
      "extract_gpstime b (last_gpstime s) = Inr (Some bt)"
      "extract_gpstime r (last_gpstime s) = Inl e"
      "emit_next s =
        (s\<lparr>extracted := extracted s @ [(Base, b), (Rover, r)], raised := Some e\<rparr>, False)"
  | (EmitBase) b r bt rt where "base_msg s = Some b" "rove_msg s = Some r"
      "extract_gpstime b (last_gpstime s) = Inr (Some bt)"
      "extract_gpstime r (last_gpstime s) = Inr (Some rt)"
      "compare_gpstime rt bt = 1"
      "emit_next s =
        (s\<lparr>extracted := extracted s @ [(Base, b), (Rover, r)], emitted := emitted s @ [b],
           base_msg := None, last_gpstime := bt\<rparr>, True)"
  | (EmitRove) b r bt rt where "base_msg s = Some b" "rove_msg s = Some r"
      "extract_gpstime b (last_gpstime s) = Inr (Some bt)"
      "extract_gpstime r (last_gpstime s) = Inr (Some rt)"
      "compare_gpstime rt bt \<noteq> 1"
      "emit_next s =
        (s\<lparr>extracted := extracted s @ [(Base, b), (Rover, r)], emitted := emitted s @ [r],
           rove_msg := None, last_gpstime := rt\<rparr>, True)"
proof (cases "base_msg s")
  case None
  then show ?thesis
    using Done RoveOnly by (cases "rove_msg s") (auto simp add: emit_next_def emit_def)
next
  case b: (Some b)
  show ?thesis
  proof (cases "rove_msg s")
    case None
    then show ?thesis using b BaseOnly by (auto simp add: emit_next_def emit_def)
  next
    case r: (Some r)
    show ?thesis
    proof (cases rule: extract_result[of b "last_gpstime s"])
      case (Raise e)
      then show ?thesis
        using b r RaiseBase by (auto simp add: emit_next_def emit_def Let_def)
    next
      case bt: (Time bt)
      show ?thesis
      proof (cases rule: extract_result[of r "last_gpstime s"])
        case (Raise e)
        then show ?thesis
          using b r bt RaiseRove by (auto simp add: emit_next_def emit_def Let_def)
      next
        case rt: (Time rt)
        show ?thesis
        proof (cases "compare_gpstime rt bt = 1")
          case True
          then show ?thesis
            using b r bt rt EmitBase[of b r bt rt]
            by (auto simp add: emit_next_def emit_def Let_def)
        next
          case False
          then show ?thesis
            using b r bt rt EmitRove[of b r bt rt]
            by (auto simp add: emit_next_def emit_def Let_def)
        qed
      qed
    qed
  qed
qed

lemma zip_body_cases [case_names Raised Next]:
  obtains (Raised) "raised (pull_base brate s) \<noteq> None"
      "zip_body brate s = (pull_base brate s, False)"
  | (Next) "raised (pull_base brate s) = None"
      "zip_body brate s = emit_next (pull_rove (pull_base brate s))"
  by (cases "raised (pull_base brate s) = None") (auto simp add: zip_body_def Let_def)

subsection \<open>What is emitted only grows\<close>

lemma emit_next_emitted: "emit_next s = (s', again) \<Longrightarrow> \<exists>ys. emitted s' = emitted s @ ys"
  by (cases s rule: emit_next_cases) auto

lemma zip_body_emitted: "zip_body brate s = (s', again) \<Longrightarrow> \<exists>ys. emitted s' = emitted s @ ys"
proof (cases brate s rule: zip_body_cases)
  case Raised
  assume "zip_body brate s = (s', again)"
  then show ?thesis using Raised pull_base_frame[of brate s] by auto
next
  case Next
  assume "zip_body brate s = (s', again)"
  then have "emit_next (pull_rove (pull_base brate s)) = (s', again)" using Next by simp
  from emit_next_emitted[OF this] show ?thesis
    using pull_base_frame[of brate s] pull_rove_frame[of "pull_base brate s"] by simp
qed

lemma zip_loop_emitted: "\<exists>ys. emitted (zip_loop brate s) = emitted s @ ys"
proof (rule zip_loop_invariant[where I = "\<lambda>s'. \<exists>ys. emitted s' = emitted s @ ys"])
  show "\<exists>ys. emitted s = emitted s @ ys" by simp
next
  fix t t' again
  assume "\<exists>ys. emitted t = emitted s @ ys" and "zip_body brate t = (t', again)"
  then show "\<exists>ys. emitted t' = emitted s @ ys"
    using zip_body_emitted[of brate t t' again] by auto
qed

subsection \<open>Only types of the filter are emitted\<close>

lemma pass_through_accepted:
  "msg_type m \<in> set msgs_filter \<Longrightarrow> pass_through m"
  "msg_type m \<in> set msgs_filter \<Longrightarrow> pass_through (m\<lparr>sender := x\<rparr>)"
  by (simp_all add: pass_through_def)

lemma pull_base_kinds_ok: "kinds_ok s \<Longrightarrow> kinds_ok (pull_base brate s)"
  by (induction rule: pull_base_inv) (simp_all add: kinds_ok_def pass_through_accepted)

lemma pull_rove_kinds_ok: "kinds_ok s \<Longrightarrow> kinds_ok (pull_rove s)"
  by (induction rule: pull_rove_inv) (simp_all add: kinds_ok_def pass_through_accepted)

lemma emit_next_kinds_ok:
  "kinds_ok s \<Longrightarrow> raised s = None \<Longrightarrow> emit_next s = (s', again) \<Longrightarrow> kinds_ok s'"
  by (cases s rule: emit_next_cases) (auto simp add: kinds_ok_def)

lemma zip_body_kinds_ok: "kinds_ok s \<Longrightarrow> zip_body brate s = (s', again) \<Longrightarrow> kinds_ok s'"
proof (cases brate s rule: zip_body_cases)
  case Raised
  assume "kinds_ok s" "zip_body brate s = (s', again)"
  then show ?thesis using Raised pull_base_kinds_ok[of s brate] by auto
next
  case Next
  assume k: "kinds_ok s" and "zip_body brate s = (s', again)"
  then have e: "emit_next (pull_rove (pull_base brate s)) = (s', again)" using Next by simp
  have "kinds_ok (pull_rove (pull_base brate s))"
    using k by (intro pull_rove_kinds_ok pull_base_kinds_ok)
  moreover have "raised (pull_rove (pull_base brate s)) = None"
    using Next(1) pull_rove_frame[of "pull_base brate s"] by simp
  ultimately show ?thesis using e by (rule emit_next_kinds_ok)
qed

lemma zip_loop_kinds_ok:
  assumes "kinds_ok s"
  shows "kinds_ok (zip_loop brate s)"
  using assms by (rule zip_loop_invariant[where I = kinds_ok]) (rule zip_body_kinds_ok)

lemma zip_emitted_in_filter:
  "m \<in> set (emitted (zip_json_generators base rove brate)) \<Longrightarrow> msg_type m \<in> set msgs_filter"
proof -
  have "kinds_ok (zip_json_generators base rove brate)"
    unfolding zip_json_generators_def by (rule zip_loop_kinds_ok) (simp add: kinds_ok_def)
  then show "m \<in> set (emitted (zip_json_generators base rove brate)) \<Longrightarrow>
      msg_type m \<in> set msgs_filter"
    by (simp add: kinds_ok_def pass_through_def)
qed

subsection \<open>Every message handled has the type of an input message\<close>

lemma pull_base_types_within: "types_within T s \<Longrightarrow> types_within T (pull_base brate s)"
  by (induction rule: pull_base_inv)
     (simp_all add: types_within_def base_rest_def rove_rest_def)

lemma pull_rove_types_within: "types_within T s \<Longrightarrow> types_within T (pull_rove s)"
  by (induction rule: pull_rove_inv)
     (simp_all add: types_within_def base_rest_def rove_rest_def)

lemma emit_next_types_within:
  "types_within T s \<Longrightarrow> emit_next s = (s', again) \<Longrightarrow> types_within T s'"
  by (cases s rule: emit_next_cases) (auto simp add: types_within_def base_rest_def rove_rest_def)

lemma zip_body_types_within:
  assumes "types_within T s" and "zip_body brate s = (s', again)"
  shows "types_within T s'"
proof (cases brate s rule: zip_body_cases)
  case Raised
  then show ?thesis using assms pull_base_types_within[of T s brate] by simp
next
  case Next
  then have e: "emit_next (pull_rove (pull_base brate s)) = (s', again)" using assms(2) by simp
  have "types_within T (pull_rove (pull_base brate s))"
    using assms(1) by (intro pull_rove_types_within pull_base_types_within)
  then show ?thesis using e by (rule emit_next_types_within)
qed

lemma zip_loop_types_within:
  assumes "types_within T s"
  shows "types_within T (zip_loop brate s)"
  using assms
  by (rule zip_loop_invariant[where I = "types_within T"]) (rule zip_body_types_within)

lemma zip_emitted_from_input:
  "m \<in> set (emitted (zip_json_generators base rove brate)) \<Longrightarrow>
   msg_type m \<in> msg_type ` (set base \<union> set rove)"
proof -
  have "types_within (msg_type ` (set base \<union> set rove)) (zip_json_generators base rove brate)"
    unfolding zip_json_generators_def
    by (rule zip_loop_types_within) (simp add: types_within_def base_rest_def rove_rest_def)
  then show "m \<in> set (emitted (zip_json_generators base rove brate)) \<Longrightarrow>
      msg_type m \<in> msg_type ` (set base \<union> set rove)"
    by (simp add: types_within_def)
qed

subsection \<open>Running the loop on given messages\<close>

lemmas zip_eval =
  zip_json_generators_def zip_loop.simps zip_body_def pull_base.simps pull_rove.simps
  emit_next_def emit_def extract_gpstime_def attr_def compare_gpstime_def
  compare_gpstime_brate_whole_eval msgs_filter_def msgs_filter_eph_def sbp_ids Let_def
  obs_msg_def base_pos_msg_def qzss_msg_def heartbeat_msg_def

section \<open>The claims\<close>

text \<open>
  C3. The claim: for a message whose type is in none of the recognised sets,
  \<^verbatim>\<open>extract_gpstime\<close> returns no time (\<^verbatim>\<open>None\<close>), whatever the fallback. The code
  at a heartbeat message (type \<open>0xFFFF\<close>) with the fallback \<open>(5, 100)\<close>: the last
  condition of the chain holds, because its last disjunct is the non-zero constant
  \<^verbatim>\<open>ob.SBP_MSG_GLO_BIASES\<close>, and the fallback is returned.
\<close>

theorem extract_gpstime_unrecognized_kind:
  "extract_gpstime
     \<lparr>msg_type = 0xFFFF, sender = 1, header_t = None, common_toe = None, t_nmct = None,
      payload = ''''\<rparr> (5, 100) = Inr (Some (5, 100))"
  by (simp add: extract_gpstime_def msgs_filter_eph_def sbp_ids)




text \<open>
  C9. The splitting loop writes the messages whose sender is 0 to the base file and
  the others to the rover file, each as one line and in the order of the input; no
  message is left out or written twice, and the type of a message plays no part.
\<close>

theorem split_log_partition:
  "base_log_file (split_log to_json ms \<lparr>base_log_file = [], rover_log_file = []\<rparr>) =
     map (\<lambda>m. to_json m @ [CHR 0x0A]) (filter (\<lambda>m. sender m = 0) ms)
   \<and> rover_log_file (split_log to_json ms \<lparr>base_log_file = [], rover_log_file = []\<rparr>) =
     map (\<lambda>m. to_json m @ [CHR 0x0A]) (filter (\<lambda>m. sender m \<noteq> 0) ms)
   \<and> length (base_log_file (split_log to_json ms \<lparr>base_log_file = [], rover_log_file = []\<rparr>))
     + length (rover_log_file (split_log to_json ms \<lparr>base_log_file = [], rover_log_file = []\<rparr>))
     = length ms"
  using sum_length_filter_compl [of "\<lambda>m. sender m = 0" ms]
  by (simp add: split_log_files)

theorem split_log_partition_witness:
  "base_log_file (split_log (\<lambda>m. payload m)
      [\<lparr>msg_type = SBP_MSG_OBS, sender = 0, header_t = Some (1, 5), common_toe = None,
        t_nmct = None, payload = ''a''\<rparr>,
       \<lparr>msg_type = 0xFFFF, sender = 9, header_t = None, common_toe = None,
        t_nmct = None, payload = ''b''\<rparr>,
       \<lparr>msg_type = 0xFFFF, sender = 0, header_t = None, common_toe = None,
        t_nmct = None, payload = ''c''\<rparr>]
      \<lparr>base_log_file = [], rover_log_file = []\<rparr>) = [''a'' @ [CHR 0x0A], ''c'' @ [CHR 0x0A]]
   \<and> rover_log_file (split_log (\<lambda>m. payload m)
      [\<lparr>msg_type = SBP_MSG_OBS, sender = 0, header_t = Some (1, 5), common_toe = None,
        t_nmct = None, payload = ''a''\<rparr>,
       \<lparr>msg_type = 0xFFFF, sender = 9, header_t = None, common_toe = None,
        t_nmct = None, payload = ''b''\<rparr>,
       \<lparr>msg_type = 0xFFFF, sender = 0, header_t = None, common_toe = None,
        t_nmct = None, payload = ''c''\<rparr>]
      \<lparr>base_log_file = [], rover_log_file = []\<rparr>) = [''b'' @ [CHR 0x0A]]"
  using split_log_partition [of "\<lambda>m. payload m"
      "[\<lparr>msg_type = SBP_MSG_OBS, sender = 0, header_t = Some (1, 5), common_toe = None,
        t_nmct = None, payload = ''a''\<rparr>,
       \<lparr>msg_type = 0xFFFF, sender = 9, header_t = None, common_toe = None,
        t_nmct = None, payload = ''b''\<rparr>,
       \<lparr>msg_type = 0xFFFF, sender = 0, header_t = None, common_toe = None,
        t_nmct = None, payload = ''c''\<rparr>]"]
  by simp

text \<open>
  C4. Whatever the two input sequences and the separation, every message that
  \<^verbatim>\<open>zip_json_generators\<close> emits has a type of the list \<^verbatim>\<open>msgs_filter\<close>; and if no message
  of either input has a type of that list, nothing is emitted.
\<close>

theorem zip_emits_only_filter_kinds:
  "(\<forall>m \<in> set (emitted (zip_json_generators base rove brate)). msg_type m \<in> set msgs_filter)
   \<and> ((\<forall>m \<in> set base \<union> set rove. msg_type m \<notin> set msgs_filter) \<longrightarrow>
        emitted (zip_json_generators base rove brate) = [])"
proof (intro conjI ballI impI)
  fix m assume "m \<in> set (emitted (zip_json_generators base rove brate))"
  then show "msg_type m \<in> set msgs_filter" by (rule zip_emitted_in_filter)
next
  assume none: "\<forall>m \<in> set base \<union> set rove. msg_type m \<notin> set msgs_filter"
  show "emitted (zip_json_generators base rove brate) = []"
  proof (rule ccontr)
    assume "emitted (zip_json_generators base rove brate) \<noteq> []"
    then obtain m where m: "m \<in> set (emitted (zip_json_generators base rove brate))"
      by (cases "emitted (zip_json_generators base rove brate)") auto
    then have "msg_type m \<in> set msgs_filter" by (rule zip_emitted_in_filter)
    moreover have "msg_type m \<in> msg_type ` (set base \<union> set rove)"
      using m by (rule zip_emitted_from_input)
    ultimately show False using none by auto
  qed
qed

theorem zip_emits_only_filter_kinds_witness:
  "emitted (zip_json_generators [obs_msg 7 (1, 5), heartbeat_msg 7] [heartbeat_msg 9] (Finite 20 0))
     = [obs_msg 0 (1, 5)]
   \<and> msg_type (obs_msg 0 (1, 5)) \<in> set msgs_filter
   \<and> msg_type (heartbeat_msg 7) \<notin> set msgs_filter
   \<and> msg_type (qzss_msg 7 (1, 5)) \<notin> set msgs_filter
   \<and> msg_type (heartbeat_msg 9) \<notin> set msgs_filter
   \<and> emitted (zip_json_generators [heartbeat_msg 7, qzss_msg 7 (1, 5)] [heartbeat_msg 9] (Finite 20 0)) = []"
proof -
  have e: "emitted (zip_json_generators [obs_msg 7 (1, 5), heartbeat_msg 7] [heartbeat_msg 9] (Finite 20 0))
     = [obs_msg 0 (1, 5)]"
    by (simp add: zip_eval)
  have n1: "msg_type (heartbeat_msg 7) \<notin> set msgs_filter"
    and n2: "msg_type (qzss_msg 7 (1, 5)) \<notin> set msgs_filter"
    and n3: "msg_type (heartbeat_msg 9) \<notin> set msgs_filter"
    by (simp_all add: heartbeat_msg_def qzss_msg_def msgs_filter_def sbp_ids)
  have "obs_msg 0 (1, 5)
        \<in> set (emitted (zip_json_generators [obs_msg 7 (1, 5), heartbeat_msg 7] [heartbeat_msg 9] (Finite 20 0)))"
    by (simp only: e list.set_intros)
  with zip_emits_only_filter_kinds
         [of "[obs_msg 7 (1, 5), heartbeat_msg 7]" "[heartbeat_msg 9]" "Finite 20 0"]
  have k: "msg_type (obs_msg 0 (1, 5)) \<in> set msgs_filter" by blast
  have "\<forall>m \<in> set [heartbeat_msg 7, qzss_msg 7 (1, 5)] \<union> set [heartbeat_msg 9].
          msg_type m \<notin> set msgs_filter"
    using n1 n2 n3 by auto
  with zip_emits_only_filter_kinds
         [of "[heartbeat_msg 7, qzss_msg 7 (1, 5)]" "[heartbeat_msg 9]" "Finite 20 0"]
  have z: "emitted (zip_json_generators [heartbeat_msg 7, qzss_msg 7 (1, 5)] [heartbeat_msg 9] (Finite 20 0)) = []"
    by blast
  show ?thesis by (intro conjI) (fact e k n1 n2 n3 z)+
qed

text \<open>
  C10. \<^verbatim>\<open>SBP_MSG_EPHEMERIS_QZSS\<close> is in the list \<^verbatim>\<open>msgs_filter_eph\<close> and not in the list
  \<^verbatim>\<open>msgs_filter\<close>: whatever the two input sequences, no emitted message is a QZSS
  ephemeris, although \<^verbatim>\<open>extract_gpstime\<close> reads the time of such a message.
\<close>

theorem qzss_never_emitted:
  "SBP_MSG_EPHEMERIS_QZSS \<in> set msgs_filter_eph
   \<and> SBP_MSG_EPHEMERIS_QZSS \<notin> set msgs_filter
   \<and> (\<forall>m \<in> set (emitted (zip_json_generators base rove brate)).
         msg_type m \<noteq> SBP_MSG_EPHEMERIS_QZSS)
   \<and> extract_gpstime (qzss_msg sndr t) fallback = Inr (Some t)"
proof (intro conjI ballI)
  show "SBP_MSG_EPHEMERIS_QZSS \<in> set msgs_filter_eph"
    by (simp add: msgs_filter_eph_def)
  show q: "SBP_MSG_EPHEMERIS_QZSS \<notin> set msgs_filter"
    by (simp add: msgs_filter_def sbp_ids)
  show "extract_gpstime (qzss_msg sndr t) fallback = Inr (Some t)"
    by (simp add: extract_gpstime_def qzss_msg_def attr_def msgs_filter_eph_def sbp_ids)
  fix m assume "m \<in> set (emitted (zip_json_generators base rove brate))"
  then have "msg_type m \<in> set msgs_filter" by (rule zip_emitted_in_filter)
  with q show "msg_type m \<noteq> SBP_MSG_EPHEMERIS_QZSS" by auto
qed

theorem qzss_never_emitted_witness:
  "emitted (zip_json_generators [qzss_msg 7 (1, 5), obs_msg 7 (1, 6)] [qzss_msg 9 (1, 5)] (Finite 20 0))
     = [obs_msg 0 (1, 6)]
   \<and> msg_type (obs_msg 0 (1, 6)) \<noteq> SBP_MSG_EPHEMERIS_QZSS
   \<and> extract_gpstime (qzss_msg 7 (1, 5)) (0, 0) = Inr (Some (1, 5))"
proof -
  have e: "emitted (zip_json_generators [qzss_msg 7 (1, 5), obs_msg 7 (1, 6)] [qzss_msg 9 (1, 5)] (Finite 20 0))
     = [obs_msg 0 (1, 6)]"
    by (simp add: zip_eval)
  show ?thesis
    using qzss_never_emitted
            [of "[qzss_msg 7 (1, 5), obs_msg 7 (1, 6)]" "[qzss_msg 9 (1, 5)]" "Finite 20 0" 7 "(1, 5)" "(0, 0)"]
      e
    by simp
qed

end
